theory Spec2Isabelle
  imports Complex_Main
begin

section \<open>Data model\<close>

text \<open>
  A \<open>MotorReading\<close> as the dashboard uses it: the identity key, the timestamp (an ISO
  string on the wire), and the two primary measurements. The status and the secondary
  sensor fields are never inspected by the functions below; they travel in the record's
  extension slot, so every definition is stated over \<open>'m reading_scheme\<close>.
  The numeric fields are JavaScript numbers; they are compared only with \<open><\<close> and \<open>>\<close>,
  and are modelled as reals (no NaN).
\<close>

record reading =
  id_r :: string
  timestamp :: string
  speed :: real
  temperature :: real

record alert =
  id_a :: string
  message :: string
  acknowledged :: bool
  createdAt :: string

text \<open>
  The component state that the handlers of \<open>MainDashboard\<close> write: the reading buffer,
  the alert registry, the loading flag and the connection flag.
\<close>

record ('m, 'n) dashboard =
  readings :: "'m reading_scheme list"
  alerts :: "'n alert_scheme list"
  loading :: bool
  signalRConnected :: bool

section \<open>Array helpers of the host language\<close>

text \<open>\<open>Array.prototype.findIndex\<close>: the first index whose element satisfies the
  predicate; \<open>None\<close> stands for the result \<open>-1\<close>.\<close>

fun findIndex :: "('a \<Rightarrow> bool) \<Rightarrow> 'a list \<Rightarrow> nat option" where
  "findIndex P [] = None"
| "findIndex P (x # xs) =
     (if P x then Some 0 else map_option Suc (findIndex P xs))"

text \<open>\<open>Array.prototype.find\<close>: the first element that satisfies the predicate;
  \<open>None\<close> stands for \<open>undefined\<close>.\<close>

fun find_js :: "('a \<Rightarrow> bool) \<Rightarrow> 'a list \<Rightarrow> 'a option" where
  "find_js P [] = None"
| "find_js P (x # xs) = (if P x then Some x else find_js P xs)"

text \<open>\<open>xs.slice(0, e)\<close> for an integer \<open>e\<close>: a negative end counts from the back of
  the array and is clamped at 0; a non-negative end is clamped at the length.\<close>

definition slice0 :: "'a list \<Rightarrow> int \<Rightarrow> 'a list" where
  "slice0 xs e =
     (if e < 0 then take (nat (max (int (length xs) + e) 0)) xs
      else take (nat e) xs)"

text \<open>\<open>xs.reduce(f)\<close> without an initial value: the accumulator starts as the first
  element and the callback runs on the others from left to right. On the empty array
  the host raises a TypeError, here \<open>None\<close>.\<close>

fun reduce_js :: "('a \<Rightarrow> 'a \<Rightarrow> 'a) \<Rightarrow> 'a list \<Rightarrow> 'a option" where
  "reduce_js f [] = None"
| "reduce_js f (x # xs) = Some (foldl f x xs)"

section \<open>Derived extrema\<close>

definition highestTemp :: "'m reading_scheme list \<Rightarrow> 'm reading_scheme option" where
  "highestTemp rs =
     (if length rs \<noteq> 0
      then reduce_js (\<lambda>a b. if temperature a > temperature b then a else b) rs
      else None)"

definition lowestTemp :: "'m reading_scheme list \<Rightarrow> 'm reading_scheme option" where
  "lowestTemp rs =
     (if length rs \<noteq> 0
      then reduce_js (\<lambda>a b. if temperature a < temperature b then a else b) rs
      else None)"

definition highestRpm :: "'m reading_scheme list \<Rightarrow> 'm reading_scheme option" where
  "highestRpm rs =
     (if length rs \<noteq> 0
      then reduce_js (\<lambda>a b. if speed a > speed b then a else b) rs
      else None)"

definition lowestRpm :: "'m reading_scheme list \<Rightarrow> 'm reading_scheme option" where
  "lowestRpm rs =
     (if length rs \<noteq> 0
      then reduce_js (\<lambda>a b. if speed a < speed b then a else b) rs
      else None)"

section \<open>Alert registry\<close>

text \<open>\<open>acknowledgeAlert\<close>: the updater passed to \<open>setAlerts\<close>.\<close>

definition acknowledgeAlert :: "'n alert_scheme list \<Rightarrow> string \<Rightarrow> 'n alert_scheme list" where
  "acknowledgeAlert prev alertId =
     map (\<lambda>alert. if id_a alert = alertId then alert\<lparr>acknowledged := True\<rparr> else alert) prev"

text \<open>The updater of the \<open>NewAlert\<close> handler.\<close>

definition onNewAlert :: "'n alert_scheme list \<Rightarrow> 'n alert_scheme \<Rightarrow> 'n alert_scheme list" where
  "onNewAlert prev alert =
     (case find_js (\<lambda>a. id_a a = id_a alert) prev of
        Some existingAlert \<Rightarrow> prev
      | None \<Rightarrow> alert # prev)"

section \<open>Reconnect policy\<close>

text \<open>\<open>nextRetryDelayInMilliseconds\<close>, as a function of \<open>previousRetryCount\<close>.\<close>

definition nextRetryDelayInMilliseconds :: "nat \<Rightarrow> int" where
  "nextRetryDelayInMilliseconds previousRetryCount =
     (if previousRetryCount = 0 then 0
      else min (1000 * 2 ^ previousRetryCount) 30000)"

section \<open>Reading buffer\<close>

text \<open>The updater of the \<open>NewReading\<close> handler; \<open>maxReadings\<close> is the value captured
  by the effect.\<close>

definition onNewReading ::
  "int \<Rightarrow> 'm reading_scheme list \<Rightarrow> 'm reading_scheme \<Rightarrow> 'm reading_scheme list" where
  "onNewReading maxReadings r reading =
     (case findIndex (\<lambda>existing. id_r existing = id_r reading) r of
        Some existingIndex \<Rightarrow> r[existingIndex := reading]
      | None \<Rightarrow>
          (case find_js (\<lambda>existing. timestamp existing = timestamp reading) r of
             Some duplicateTimestamp \<Rightarrow>
               (case findIndex (\<lambda>existing. timestamp existing = timestamp reading) r of
                  Some timestampIndex \<Rightarrow> r[timestampIndex := reading]
                | None \<Rightarrow> r)
           | None \<Rightarrow> slice0 (reading # r) maxReadings))"

text \<open>
  In the branch where \<open>find\<close> has found an entry with the timestamp, \<open>findIndex\<close> with
  the same predicate cannot return \<open>-1\<close> (lemma \<open>find_js_findIndex\<close> below); the inner
  \<open>None\<close> case is there only to make the case expression total.
\<close>

section \<open>Events of the component\<close>

datatype ('m, 'n) event =
    SnapshotLoaded "'m reading_scheme list"
  | SnapshotFailed
  | NewReading "'m reading_scheme"
  | NewAlert "'n alert_scheme"
  | AcknowledgeAlert string
  | HubStarted
  | HubStartFailed
  | HubClosed
  | HubReconnecting
  | HubReconnected

text \<open>
  One event handled to completion. \<open>SnapshotLoaded\<close> is the \<open>then\<close> branch of the
  snapshot fetch (\<open>setReadings(res.data); setLoading(false)\<close>), \<open>SnapshotFailed\<close> its
  \<open>catch\<close> branch. The statistics refresh and the banner text are writes to other state
  cells and are left out.
\<close>

fun handle :: "int \<Rightarrow> ('m, 'n) dashboard \<Rightarrow> ('m, 'n) event \<Rightarrow> ('m, 'n) dashboard" where
  "handle maxReadings s (SnapshotLoaded res_data) = s\<lparr>readings := res_data, loading := False\<rparr>"
| "handle maxReadings s SnapshotFailed = s\<lparr>loading := False\<rparr>"
| "handle maxReadings s (NewReading reading) =
     s\<lparr>readings := onNewReading maxReadings (readings s) reading\<rparr>"
| "handle maxReadings s (NewAlert alert) = s\<lparr>alerts := onNewAlert (alerts s) alert\<rparr>"
| "handle maxReadings s (AcknowledgeAlert alertId) =
     s\<lparr>alerts := acknowledgeAlert (alerts s) alertId\<rparr>"
| "handle maxReadings s HubStarted = s\<lparr>signalRConnected := True\<rparr>"
| "handle maxReadings s HubStartFailed = s\<lparr>signalRConnected := False\<rparr>"
| "handle maxReadings s HubClosed = s\<lparr>signalRConnected := False\<rparr>"
| "handle maxReadings s HubReconnecting = s\<lparr>signalRConnected := False\<rparr>"
| "handle maxReadings s HubReconnected = s\<lparr>signalRConnected := True\<rparr>"

text \<open>The state the application starts from (\<open>useState\<close> defaults).\<close>

definition initial :: "('m, 'n) dashboard" where
  "initial = \<lparr>readings = [], alerts = [], loading = True, signalRConnected = False\<rparr>"

definition run :: "int \<Rightarrow> ('m, 'n) dashboard \<Rightarrow> ('m, 'n) event list \<Rightarrow> ('m, 'n) dashboard" where
  "run maxReadings s evs = foldl (handle maxReadings) s evs"

text \<open>A sequence of pushed readings applied to a buffer, one updater call each.\<close>

definition upserts ::
  "int \<Rightarrow> 'm reading_scheme list \<Rightarrow> 'm reading_scheme list \<Rightarrow> 'm reading_scheme list" where
  "upserts maxReadings r incoming = foldl (onNewReading maxReadings) r incoming"

section \<open>Properties used to state the results\<close>

text \<open>
  An id-match replacement clashes when the incoming reading carries the timestamp of an
  entry other than the one it replaces (the entry at the index \<open>findIndex\<close> returns).
\<close>

definition timestamp_clash :: "'m reading_scheme list \<Rightarrow> 'm reading_scheme \<Rightarrow> bool" where
  "timestamp_clash r reading =
     (case findIndex (\<lambda>existing. id_r existing = id_r reading) r of
        None \<Rightarrow> False
      | Some i \<Rightarrow> timestamp reading \<in> set (map timestamp (take i r @ drop (Suc i) r)))"

fun clash_free :: "int \<Rightarrow> 'm reading_scheme list \<Rightarrow> 'm reading_scheme list \<Rightarrow> bool" where
  "clash_free cap r [] = True"
| "clash_free cap r (x # xs) =
     (\<not> timestamp_clash r x \<and> clash_free cap (onNewReading cap r x) xs)"

text \<open>
  \<open>attains_last better k xs res\<close>: \<open>res\<close> is the entry of \<open>xs\<close> at some index \<open>i\<close>, no
  entry has a key strictly better than the key at \<open>i\<close>, and the key at \<open>i\<close> is strictly
  better than the key of every entry behind \<open>i\<close>. With \<open>better = (>)\<close> this is the last
  maximum in list order, with \<open>better = (<)\<close> the last minimum.
\<close>

definition attains_last ::
  "(real \<Rightarrow> real \<Rightarrow> bool) \<Rightarrow> ('a \<Rightarrow> real) \<Rightarrow> 'a list \<Rightarrow> 'a option \<Rightarrow> bool" where
  "attains_last better k xs res =
     (\<exists>i\<in>{..<length xs}. res = Some (xs ! i)
        \<and> (\<forall>j\<in>{..<length xs}. \<not> better (k (xs ! j)) (k (xs ! i)))
        \<and> (\<forall>j\<in>{..<length xs}. i < j \<longrightarrow> better (k (xs ! i)) (k (xs ! j))))"

text \<open>
  Shorthands for concrete readings and alerts without secondary fields.
\<close>

definition rdg :: "string \<Rightarrow> string \<Rightarrow> real \<Rightarrow> real \<Rightarrow> reading" where
  "rdg i t s c = \<lparr>id_r = i, timestamp = t, speed = s, temperature = c\<rparr>"

definition alr :: "string \<Rightarrow> string \<Rightarrow> bool \<Rightarrow> string \<Rightarrow> alert" where
  "alr i m a c = \<lparr>id_a = i, message = m, acknowledged = a, createdAt = c\<rparr>"

section \<open>Facts about the array helpers\<close>

lemma findIndex_Some:
  "findIndex P xs = Some i \<Longrightarrow> i < length xs \<and> P (xs ! i) \<and> (\<forall>j<i. \<not> P (xs ! j))"
proof (induction xs arbitrary: i)
  case Nil
  then show ?case by simp
next
  case (Cons x xs)
  show ?case
  proof (cases "P x")
    case True
    with Cons.prems show ?thesis by simp
  next
    case False
    with Cons.prems obtain k where k: "findIndex P xs = Some k" "i = Suc k"
      by auto
    from Cons.IH [OF k(1)] False k(2) show ?thesis
      by (auto simp: nth_Cons split: nat.splits)
  qed
qed

lemma findIndex_None: "findIndex P xs = None \<longleftrightarrow> (\<forall>x\<in>set xs. \<not> P x)"
  by (induction xs) auto

lemma findIndex_first:
  "i < length xs \<Longrightarrow> P (xs ! i) \<Longrightarrow> \<forall>j<i. \<not> P (xs ! j) \<Longrightarrow> findIndex P xs = Some i"
proof -
  assume a: "i < length xs" "P (xs ! i)" "\<forall>j<i. \<not> P (xs ! j)"
  from a(1,2) have "\<not> (\<forall>x\<in>set xs. \<not> P x)" by auto
  then obtain k where k: "findIndex P xs = Some k"
    by (cases "findIndex P xs") (simp_all add: findIndex_None)
  from findIndex_Some [OF k] a have "k = i"
    by (metis linorder_neqE_nat)
  with k show ?thesis by simp
qed

lemma find_js_None: "find_js P xs = None \<longleftrightarrow> (\<forall>x\<in>set xs. \<not> P x)"
  by (induction xs) auto

lemma find_js_findIndex: "find_js P xs = Some x \<Longrightarrow> \<exists>i. findIndex P xs = Some i"
  by (cases "findIndex P xs") (auto simp: findIndex_None dest: find_js_None [THEN iffD2])

lemma distinct_first_match:
  "distinct (map f xs) \<Longrightarrow> i < length xs \<Longrightarrow> \<forall>j<i. f (xs ! j) \<noteq> f (xs ! i)"
  by (auto simp: distinct_conv_nth)

lemma slice0_nonneg: "0 \<le> e \<Longrightarrow> slice0 xs e = take (nat e) xs"
  by (simp add: slice0_def)

lemma slice0_is_take: "\<exists>n. slice0 xs e = take n xs"
  by (auto simp: slice0_def)

lemma map_update_same:
  "i < length xs \<Longrightarrow> f y = f (xs ! i) \<Longrightarrow> map f (xs[i := y]) = map f xs"
  by (simp add: map_update list_update_same_conv)

lemma distinct_map_update:
  assumes "distinct (map f xs)" "i < length xs"
    and "f y \<notin> set (map f (take i xs @ drop (Suc i) xs))"
  shows "distinct (map f (xs[i := y]))"
proof -
  have xs: "xs = take i xs @ xs ! i # drop (Suc i) xs"
    using assms(2) by (simp add: id_take_nth_drop)
  have "distinct (map f (take i xs) @ f (xs ! i) # map f (drop (Suc i) xs))"
    using assms(1) xs by (metis list.simps(9) map_append)
  moreover have "xs[i := y] = take i xs @ y # drop (Suc i) xs"
    using assms(2) by (simp add: upd_conv_take_nth_drop)
  ultimately show ?thesis
    using assms(3) by auto
qed

lemma distinct_map_update_new:
  assumes "distinct (map f xs)" "i < length xs" "\<forall>x\<in>set xs. f x \<noteq> f y"
  shows "distinct (map f (xs[i := y]))"
proof -
  have "f y \<notin> set (map f (take i xs @ drop (Suc i) xs))"
    using assms(3) by (auto dest: in_set_takeD in_set_dropD)
  with assms(1,2) show ?thesis by (rule distinct_map_update)
qed

lemma distinct_map_slice0:
  "distinct (map f xs) \<Longrightarrow> distinct (map f (slice0 xs e))"
proof -
  assume d: "distinct (map f xs)"
  obtain n where "slice0 xs e = take n xs" using slice0_is_take by blast
  then show ?thesis using d by (simp add: take_map [symmetric] distinct_take)
qed

lemma find_js_Some_iff: "(\<exists>x. find_js P xs = Some x) \<longleftrightarrow> (\<exists>x\<in>set xs. P x)"
  using find_js_None [of P xs] by (cases "find_js P xs") auto

section \<open>The three branches of the reading updater\<close>

lemma onNewReading_cases [case_names idm tsm novel]:
  obtains
    (idm) i where "findIndex (\<lambda>e. id_r e = id_r reading) r = Some i"
      "onNewReading cap r reading = r[i := reading]"
  | (tsm) j where "findIndex (\<lambda>e. id_r e = id_r reading) r = None"
      "findIndex (\<lambda>e. timestamp e = timestamp reading) r = Some j"
      "onNewReading cap r reading = r[j := reading]"
  | (novel) "findIndex (\<lambda>e. id_r e = id_r reading) r = None"
      "findIndex (\<lambda>e. timestamp e = timestamp reading) r = None"
      "onNewReading cap r reading = slice0 (reading # r) cap"
proof (cases "findIndex (\<lambda>e. id_r e = id_r reading) r")
  case (Some i)
  then show ?thesis by (intro idm [of i]) (simp_all add: onNewReading_def)
next
  case None
  show ?thesis
  proof (cases "find_js (\<lambda>e. timestamp e = timestamp reading) r")
    case N2: None
    then have "findIndex (\<lambda>e. timestamp e = timestamp reading) r = None"
      by (simp add: find_js_None findIndex_None)
    with None N2 show ?thesis by (intro novel) (simp_all add: onNewReading_def)
  next
    case (Some x)
    from find_js_findIndex [OF Some] obtain j
      where "findIndex (\<lambda>e. timestamp e = timestamp reading) r = Some j" ..
    with None Some show ?thesis by (intro tsm [of j]) (simp_all add: onNewReading_def)
  qed
qed

lemma onNewReading_length_le:
  assumes "int (length r) \<le> cap"
  shows "int (length (onNewReading cap r reading)) \<le> cap"
proof -
  from assms have "0 \<le> cap" by linarith
  then have "int (length (slice0 (reading # r) cap)) \<le> cap"
    by (simp add: slice0_nonneg)
  with assms show ?thesis
    by (cases rule: onNewReading_cases [where r = r and reading = reading and cap = cap]) simp_all
qed

lemma onNewReading_ids:
  assumes "distinct (map id_r r)"
  shows "distinct (map id_r (onNewReading cap r reading))"
proof -
  show ?thesis
  proof (cases rule: onNewReading_cases [where r = r and reading = reading and cap = cap])
    case (idm i)
    from findIndex_Some [OF idm(1)] have "i < length r" "id_r reading = id_r (r ! i)"
      by simp_all
    then have "map id_r (r[i := reading]) = map id_r r"
      by (rule map_update_same)
    with assms idm(2) show ?thesis by simp
  next
    case (tsm j)
    from findIndex_Some [OF tsm(2)] have j: "j < length r" by simp
    from tsm(1) have "\<forall>x\<in>set r. id_r x \<noteq> id_r reading"
      by (simp add: findIndex_None)
    with assms j have "distinct (map id_r (r[j := reading]))"
      by (rule distinct_map_update_new)
    with tsm(3) show ?thesis by simp
  next
    case novel
    from novel(1) have "\<forall>x\<in>set r. id_r x \<noteq> id_r reading"
      by (simp add: findIndex_None)
    with assms have "distinct (map id_r (reading # r))" by auto
    then have "distinct (map id_r (slice0 (reading # r) cap))"
      by (rule distinct_map_slice0)
    with novel(3) show ?thesis by simp
  qed
qed

lemma onNewReading_timestamps:
  assumes "distinct (map timestamp r)" "\<not> timestamp_clash r reading"
  shows "distinct (map timestamp (onNewReading cap r reading))"
proof -
  show ?thesis
  proof (cases rule: onNewReading_cases [where r = r and reading = reading and cap = cap])
    case (idm i)
    from findIndex_Some [OF idm(1)] have i: "i < length r" by simp
    from assms(2) idm(1)
    have "timestamp reading \<notin> set (map timestamp (take i r @ drop (Suc i) r))"
      by (simp add: timestamp_clash_def)
    with assms(1) i have "distinct (map timestamp (r[i := reading]))"
      by (rule distinct_map_update)
    with idm(2) show ?thesis by simp
  next
    case (tsm j)
    from findIndex_Some [OF tsm(2)]
    have "j < length r" "timestamp reading = timestamp (r ! j)"
      by simp_all
    then have "map timestamp (r[j := reading]) = map timestamp r"
      by (rule map_update_same)
    with assms(1) tsm(3) show ?thesis by simp
  next
    case novel
    from novel(2) have "\<forall>x\<in>set r. timestamp x \<noteq> timestamp reading"
      by (simp add: findIndex_None)
    with assms(1) have "distinct (map timestamp (reading # r))" by auto
    then have "distinct (map timestamp (slice0 (reading # r) cap))"
      by (rule distinct_map_slice0)
    with novel(3) show ?thesis by simp
  qed
qed

lemma upserts_ids:
  "distinct (map id_r r) \<Longrightarrow> distinct (map id_r (upserts cap r incoming))"
  unfolding upserts_def
  by (induction incoming arbitrary: r) (simp_all add: onNewReading_ids)

lemma upserts_timestamps:
  "distinct (map timestamp r) \<Longrightarrow> clash_free cap r incoming \<Longrightarrow>
   distinct (map timestamp (upserts cap r incoming))"
  unfolding upserts_def
  by (induction incoming arbitrary: r) (simp_all add: onNewReading_timestamps)

section \<open>Reading buffer: uniqueness of keys\<close>

text \<open>
  Claim C1, as amended. For every sequence of reading upserts applied to the initially
  empty buffer, the resulting buffer holds at most one reading with any given id. It
  holds at most one reading with any given timestamp provided that no upsert of the
  sequence is an id-match replacement whose timestamp equals the timestamp of a
  different entry of the buffer at that moment: the id check comes first and replaces
  without looking at timestamps.
\<close>

theorem upserts_unique_keys:
  "distinct (map id_r (upserts cap [] incoming))
   \<and> (clash_free cap [] incoming \<longrightarrow> distinct (map timestamp (upserts cap [] incoming)))"
  using upserts_ids [of "[]" cap incoming] upserts_timestamps [of "[]" cap incoming]
  by simp

theorem upserts_unique_keys_witness:
  "clash_free 100 [] [rdg ''1'' ''t10'' 1000 50, rdg ''2'' ''t20'' 1100 55, rdg ''1'' ''t30'' 1200 60]
   \<and> distinct (map timestamp (upserts 100 []
        [rdg ''1'' ''t10'' 1000 50, rdg ''2'' ''t20'' 1100 55, rdg ''1'' ''t30'' 1200 60]))
   \<and> distinct (map id_r (upserts 100 []
        [rdg ''1'' ''t10'' 1000 50, rdg ''2'' ''t20'' 1100 55, rdg ''1'' ''t30'' 1200 60]))"
proof -
  have c: "clash_free 100 [] [rdg ''1'' ''t10'' 1000 50, rdg ''2'' ''t20'' 1100 55, rdg ''1'' ''t30'' 1200 60]"
    by (simp add: timestamp_clash_def onNewReading_def slice0_def rdg_def)
  with upserts_unique_keys [of 100 "[rdg ''1'' ''t10'' 1000 50, rdg ''2'' ''t20'' 1100 55, rdg ''1'' ''t30'' 1200 60]"]
  show ?thesis by blast
qed

text \<open>
  The claim as stated fails: after readings \<open>(id 1, t10)\<close> and \<open>(id 2, t20)\<close>, the upsert
  of \<open>(id 1, t20)\<close> replaces the entry with id 1 and leaves two entries with timestamp
  \<open>t20\<close>.
\<close>

theorem upserts_shared_timestamp_counterexample:
  "upserts 100 [] [rdg ''1'' ''t10'' 1000 50, rdg ''2'' ''t20'' 1100 55, rdg ''1'' ''t20'' 1200 60]
     = [rdg ''2'' ''t20'' 1100 55, rdg ''1'' ''t20'' 1200 60]
   \<and> \<not> distinct (map timestamp (upserts 100 []
        [rdg ''1'' ''t10'' 1000 50, rdg ''2'' ''t20'' 1100 55, rdg ''1'' ''t20'' 1200 60]))"
  by (simp add: upserts_def onNewReading_def slice0_def rdg_def)

section \<open>Snapshot arrival\<close>

text \<open>
  Claim C2, as amended. When the snapshot fetch result arrives, the buffer becomes the
  fetched list exactly as received, whatever events were handled before: readings that
  were pushed earlier are kept only if the fetched list contains them, and no
  id or timestamp dedup is applied to the fetched list.
\<close>

theorem snapshot_replaces_buffer:
  "readings (handle cap (run cap initial evs) (SnapshotLoaded res_data)) = res_data"
  by simp

text \<open>
  The claim as stated fails: a pushed reading with id 7, whose id and timestamp do not
  occur in the snapshot, is gone after the snapshot arrives, and a snapshot that repeats
  an entry is stored with the repetition.
\<close>

theorem snapshot_overwrites_counterexample:
  "readings (run 100 (initial :: (unit, unit) dashboard) [NewReading (rdg ''7'' ''t70'' 1500 60)])
     = [rdg ''7'' ''t70'' 1500 60]
   \<and> readings (handle 100
        (run 100 (initial :: (unit, unit) dashboard) [NewReading (rdg ''7'' ''t70'' 1500 60)])
        (SnapshotLoaded [rdg ''1'' ''t10'' 1000 50, rdg ''1'' ''t10'' 1000 50]))
     = [rdg ''1'' ''t10'' 1000 50, rdg ''1'' ''t10'' 1000 50]
   \<and> rdg ''7'' ''t70'' 1500 60 \<notin> set (readings (handle 100
        (run 100 (initial :: (unit, unit) dashboard) [NewReading (rdg ''7'' ''t70'' 1500 60)])
        (SnapshotLoaded [rdg ''1'' ''t10'' 1000 50, rdg ''1'' ''t10'' 1000 50])))"
  by (simp add: run_def initial_def onNewReading_def slice0_def rdg_def)

section \<open>Derived extrema: which entry the reducers return\<close>

lemma foldl_keeps_last_max:
  fixes k :: "'a \<Rightarrow> real"
  assumes "ys \<noteq> []"
  shows "\<exists>i<length ys.
      foldl (\<lambda>a b. if k a > k b then a else b) (hd ys) (tl ys) = ys ! i
      \<and> (\<forall>j<length ys. k (ys ! j) \<le> k (ys ! i))
      \<and> (\<forall>j<length ys. i < j \<longrightarrow> k (ys ! j) < k (ys ! i))"
  using assms
proof (induction ys rule: rev_induct)
  case Nil
  then show ?case by simp
next
  case (snoc y ys)
  let ?f = "\<lambda>a b. if k a > k b then a else b"
  show ?case
  proof (cases "ys = []")
    case True
    then show ?thesis by simp
  next
    case ne: False
    with snoc.IH obtain i where i: "i < length ys" "foldl ?f (hd ys) (tl ys) = ys ! i"
      "\<forall>j<length ys. k (ys ! j) \<le> k (ys ! i)"
      "\<forall>j<length ys. i < j \<longrightarrow> k (ys ! j) < k (ys ! i)"
      by blast
    have res: "foldl ?f (hd (ys @ [y])) (tl (ys @ [y])) = ?f (ys ! i) y"
      using i(2) ne by simp
    have split: "j < length ys \<or> j = length ys" if "j < length (ys @ [y])" for j
      using that by fastforce
    show ?thesis
    proof (cases "k (ys ! i) > k y")
      case True
      have "i < length (ys @ [y])" using i(1) by simp
      moreover have "foldl ?f (hd (ys @ [y])) (tl (ys @ [y])) = (ys @ [y]) ! i"
        using True i(1) by (simp only: res nth_append if_True)
      moreover have "\<forall>j<length (ys @ [y]). k ((ys @ [y]) ! j) \<le> k ((ys @ [y]) ! i)"
        using split i(1,3) True by (fastforce simp: nth_append)
      moreover have "\<forall>j<length (ys @ [y]). i < j \<longrightarrow> k ((ys @ [y]) ! j) < k ((ys @ [y]) ! i)"
        using split i(1,4) True by (fastforce simp: nth_append)
      ultimately show ?thesis by blast
    next
      case False
      have "length ys < length (ys @ [y])" by simp
      moreover have "foldl ?f (hd (ys @ [y])) (tl (ys @ [y])) = (ys @ [y]) ! length ys"
        using False by (simp only: res nth_append_length if_False)
      moreover have "\<forall>j<length (ys @ [y]). k ((ys @ [y]) ! j) \<le> k ((ys @ [y]) ! length ys)"
      proof (intro allI impI)
        fix j assume "j < length (ys @ [y])"
        with split consider "j < length ys" | "j = length ys" by blast
        then show "k ((ys @ [y]) ! j) \<le> k ((ys @ [y]) ! length ys)"
        proof cases
          case 1
          with i(3) have "k (ys ! j) \<le> k (ys ! i)" by blast
          with False 1 show ?thesis by (simp add: nth_append)
        next
          case 2
          then show ?thesis by simp
        qed
      qed
      moreover have "\<forall>j<length (ys @ [y]). length ys < j \<longrightarrow>
          k ((ys @ [y]) ! j) < k ((ys @ [y]) ! length ys)"
        by simp
      ultimately show ?thesis by blast
    qed
  qed
qed

lemma reduce_max_attains_last:
  fixes k :: "'a \<Rightarrow> real"
  assumes "rs \<noteq> []"
  shows "attains_last (>) k rs (reduce_js (\<lambda>a b. if k a > k b then a else b) rs)"
proof -
  from assms obtain x xs where rs: "rs = x # xs" by (cases rs) auto
  from foldl_keeps_last_max [of rs k] assms obtain i where i: "i < length rs"
    "foldl (\<lambda>a b. if k a > k b then a else b) (hd rs) (tl rs) = rs ! i"
    "\<forall>j<length rs. k (rs ! j) \<le> k (rs ! i)"
    "\<forall>j<length rs. i < j \<longrightarrow> k (rs ! j) < k (rs ! i)"
    by blast
  from i(2) have "reduce_js (\<lambda>a b. if k a > k b then a else b) rs = Some (rs ! i)"
    by (simp add: rs)
  with i(1,3,4) show ?thesis
    unfolding attains_last_def by (auto simp: not_less)
qed

lemma reduce_min_attains_last:
  fixes k :: "'a \<Rightarrow> real"
  assumes "rs \<noteq> []"
  shows "attains_last (<) k rs (reduce_js (\<lambda>a b. if k a < k b then a else b) rs)"
proof -
  have "attains_last (>) (\<lambda>a. - k a) rs (reduce_js (\<lambda>a b. if - k a > - k b then a else b) rs)"
    using assms by (rule reduce_max_attains_last)
  then show ?thesis
    by (simp add: attains_last_def)
qed

text \<open>
  Claim C3, as amended. For every non-empty buffer, each derived extremum
  (\<open>highestTemp\<close>, \<open>lowestTemp\<close>, \<open>highestRpm\<close>, \<open>lowestRpm\<close>) is a reading of the buffer
  attaining the extremal value, and when several readings tie on that value, the one
  last in buffer order (closest to the back) is returned: the reducer keeps the
  accumulator only when it is strictly better than the current element.
\<close>

theorem extrema_last_of_ties:
  assumes "rs \<noteq> []"
  shows "attains_last (>) temperature rs (highestTemp rs)
    \<and> attains_last (<) temperature rs (lowestTemp rs)
    \<and> attains_last (>) speed rs (highestRpm rs)
    \<and> attains_last (<) speed rs (lowestRpm rs)"
  using assms
  by (simp add: highestTemp_def lowestTemp_def highestRpm_def lowestRpm_def
      reduce_max_attains_last reduce_min_attains_last)

theorem extrema_last_of_ties_witness:
  "[rdg ''1'' ''t3'' 1000 90, rdg ''2'' ''t2'' 1000 20, rdg ''3'' ''t1'' 1000 90] \<noteq> []
   \<and> attains_last (>) temperature
        [rdg ''1'' ''t3'' 1000 90, rdg ''2'' ''t2'' 1000 20, rdg ''3'' ''t1'' 1000 90]
        (Some (rdg ''3'' ''t1'' 1000 90))
   \<and> attains_last (<) speed
        [rdg ''1'' ''t3'' 1000 90, rdg ''2'' ''t2'' 1000 20, rdg ''3'' ''t1'' 1000 90]
        (Some (rdg ''3'' ''t1'' 1000 90))"
  using extrema_last_of_ties [of "[rdg ''1'' ''t3'' 1000 90, rdg ''2'' ''t2'' 1000 20, rdg ''3'' ''t1'' 1000 90]"]
  by (simp add: highestTemp_def lowestRpm_def rdg_def)

text \<open>
  The claim as stated fails on its own example: for temperatures 90, 20, 90 the
  highest-temperature reading is the third entry, not the first.
\<close>

theorem extrema_first_of_ties_counterexample:
  "highestTemp [rdg ''1'' ''t3'' 1000 90, rdg ''2'' ''t2'' 1000 20, rdg ''3'' ''t1'' 1000 90]
     = Some (rdg ''3'' ''t1'' 1000 90)
   \<and> highestTemp [rdg ''1'' ''t3'' 1000 90, rdg ''2'' ''t2'' 1000 20, rdg ''3'' ''t1'' 1000 90]
     \<noteq> Some ([rdg ''1'' ''t3'' 1000 90, rdg ''2'' ''t2'' 1000 20, rdg ''3'' ''t1'' 1000 90] ! 0)"
  by (simp add: highestTemp_def rdg_def)

section \<open>Reading buffer: length bound\<close>

text \<open>
  Claim C4, as amended. The bound \<open>length \<le> maxReadings\<close> is preserved by every
  event handler, provided that a snapshot arrival carries a fetched sequence of length
  at most \<open>maxReadings\<close>; the snapshot replacement does not truncate, and afterwards the
  buffer has the length of the fetched sequence.
\<close>

theorem length_bound_steps:
  "(int (length (readings s)) \<le> cap \<and> (\<forall>res_data. e = SnapshotLoaded res_data \<longrightarrow> int (length res_data) \<le> cap)
      \<longrightarrow> int (length (readings (handle cap s e))) \<le> cap)
   \<and> length (readings (handle cap s (SnapshotLoaded fetched))) = length fetched"
  by (cases e) (simp_all add: onNewReading_length_le)

theorem length_bound_steps_witness:
  "int (length (readings (initial :: (unit, unit) dashboard))) \<le> 1
   \<and> int (length [rdg ''1'' ''t10'' 1000 50]) \<le> 1
   \<and> int (length (readings (handle 1 (initial :: (unit, unit) dashboard)
        (SnapshotLoaded [rdg ''1'' ''t10'' 1000 50])))) \<le> 1
   \<and> length (readings (handle 1 (initial :: (unit, unit) dashboard)
        (SnapshotLoaded [rdg ''1'' ''t10'' 1000 50, rdg ''2'' ''t20'' 1100 55]))) = 2"
  using length_bound_steps [of "initial :: (unit, unit) dashboard" 1
      "SnapshotLoaded [rdg ''1'' ''t10'' 1000 50]"
      "[rdg ''1'' ''t10'' 1000 50, rdg ''2'' ''t20'' 1100 55]"]
  by (simp add: initial_def)

text \<open>
  The claim as stated fails: with \<open>maxReadings = 1\<close>, a snapshot of two readings leaves
  a buffer of length 2.
\<close>

theorem snapshot_length_counterexample:
  "int (length (readings (initial :: (unit, unit) dashboard))) \<le> 1
   \<and> \<not> int (length (readings (handle 1 (initial :: (unit, unit) dashboard)
        (SnapshotLoaded [rdg ''1'' ''t10'' 1000 50, rdg ''2'' ''t20'' 1100 55])))) \<le> 1"
  by (simp add: initial_def)

text \<open>
  Claim C5. For every sequence of upserts, whatever branch each one takes, starting from
  a buffer whose length is at most the capacity, the resulting buffer length does not
  exceed the capacity.
\<close>

theorem upserts_within_capacity:
  assumes "int (length r) \<le> capacity"
  shows "int (length (upserts capacity r incoming)) \<le> capacity"
  using assms unfolding upserts_def
proof (induction incoming arbitrary: r)
  case Nil
  then show ?case by simp
next
  case (Cons x xs)
  from Cons.prems have "int (length (onNewReading capacity r x)) \<le> capacity"
    by (rule onNewReading_length_le)
  then show ?case using Cons.IH by simp
qed

theorem upserts_within_capacity_witness:
  "int (length [rdg ''2'' ''t20'' 1100 55, rdg ''1'' ''t10'' 1000 50]) \<le> 2
   \<and> int (length (upserts 2 [rdg ''2'' ''t20'' 1100 55, rdg ''1'' ''t10'' 1000 50]
        [rdg ''3'' ''t30'' 1200 60, rdg ''2'' ''t25'' 1150 57, rdg ''9'' ''t30'' 1300 61])) \<le> 2"
  using upserts_within_capacity [of "[rdg ''2'' ''t20'' 1100 55, rdg ''1'' ''t10'' 1000 50]" 2
      "[rdg ''3'' ''t30'' 1200 60, rdg ''2'' ''t25'' 1150 57, rdg ''9'' ''t30'' 1300 61]"]
  by simp

section \<open>Reading buffer: the id-match and the novel branch\<close>

text \<open>
  Claim C6. If the incoming reading's id equals the id of the buffer entry at index \<open>i\<close>,
  the updater returns the old buffer with index \<open>i\<close> holding the incoming reading:
  position, length and every other entry are unchanged. The index is the one
  \<open>findIndex\<close> returns, the first with that id; in a buffer with unique ids every
  matching index is that one.
\<close>

theorem id_match_replaces_in_place:
  assumes "i < length r" and "id_r (r ! i) = id_r reading"
    and "distinct (map id_r r) \<or> (\<forall>j<i. id_r (r ! j) \<noteq> id_r reading)"
  shows "onNewReading cap r reading = r[i := reading]
    \<and> length (onNewReading cap r reading) = length r
    \<and> onNewReading cap r reading ! i = reading
    \<and> (\<forall>k<length r. k \<noteq> i \<longrightarrow> onNewReading cap r reading ! k = r ! k)"
proof -
  have first: "\<forall>j<i. id_r (r ! j) \<noteq> id_r reading"
    using assms distinct_first_match [of id_r r i] by auto
  with assms(1,2) have "findIndex (\<lambda>e. id_r e = id_r reading) r = Some i"
    by (intro findIndex_first) simp_all
  then have "onNewReading cap r reading = r[i := reading]"
    by (simp add: onNewReading_def)
  with assms(1) show ?thesis by simp
qed

theorem id_match_replaces_in_place_witness:
  "(1::nat) < length [rdg ''1'' ''t10'' 1000 50, rdg ''2'' ''t20'' 1100 55]
   \<and> id_r ([rdg ''1'' ''t10'' 1000 50, rdg ''2'' ''t20'' 1100 55] ! 1) = id_r (rdg ''2'' ''t25'' 1150 57)
   \<and> distinct (map id_r [rdg ''1'' ''t10'' 1000 50, rdg ''2'' ''t20'' 1100 55])
   \<and> onNewReading 100 [rdg ''1'' ''t10'' 1000 50, rdg ''2'' ''t20'' 1100 55] (rdg ''2'' ''t25'' 1150 57)
      = [rdg ''1'' ''t10'' 1000 50, rdg ''2'' ''t25'' 1150 57]"
  using id_match_replaces_in_place [of 1 "[rdg ''1'' ''t10'' 1000 50, rdg ''2'' ''t20'' 1100 55]"
      "rdg ''2'' ''t25'' 1150 57" 100]
  by (simp add: rdg_def)

text \<open>
  Claim C7. If the incoming reading matches no existing id and no existing timestamp,
  the updater prepends it and keeps the first \<open>capacity\<close> elements; what is dropped is
  exactly the tail beyond the capacity. Example: capacity 2, buffer \<open>[B, A]\<close>, novel \<open>C\<close>
  gives \<open>[C, B]\<close>.
\<close>

theorem novel_reading_prepended:
  assumes "0 \<le> capacity"
    and "\<forall>e\<in>set r. id_r e \<noteq> id_r reading"
    and "\<forall>e\<in>set r. timestamp e \<noteq> timestamp reading"
  shows "onNewReading capacity r reading = take (nat capacity) (reading # r)
    \<and> onNewReading capacity r reading @ drop (nat capacity) (reading # r) = reading # r"
proof -
  from assms(2) have "findIndex (\<lambda>e. id_r e = id_r reading) r = None"
    by (simp add: findIndex_None)
  moreover from assms(3) have "find_js (\<lambda>e. timestamp e = timestamp reading) r = None"
    by (simp add: find_js_None)
  ultimately have "onNewReading capacity r reading = slice0 (reading # r) capacity"
    by (simp add: onNewReading_def)
  with assms(1) have "onNewReading capacity r reading = take (nat capacity) (reading # r)"
    by (simp add: slice0_nonneg)
  then show ?thesis
    by (simp only: append_take_drop_id simp_thms)
qed

theorem novel_reading_prepended_witness:
  "(0::int) \<le> 2
   \<and> id_r (rdg ''3'' ''t30'' 1200 60)
        \<notin> set (map id_r [rdg ''2'' ''t20'' 1100 55, rdg ''1'' ''t10'' 1000 50])
   \<and> timestamp (rdg ''3'' ''t30'' 1200 60)
        \<notin> set (map timestamp [rdg ''2'' ''t20'' 1100 55, rdg ''1'' ''t10'' 1000 50])
   \<and> onNewReading 2 [rdg ''2'' ''t20'' 1100 55, rdg ''1'' ''t10'' 1000 50] (rdg ''3'' ''t30'' 1200 60)
      = [rdg ''3'' ''t30'' 1200 60, rdg ''2'' ''t20'' 1100 55]"
  using novel_reading_prepended [of 2 "[rdg ''2'' ''t20'' 1100 55, rdg ''1'' ''t10'' 1000 50]"
      "rdg ''3'' ''t30'' 1200 60"]
  by (simp add: rdg_def)

section \<open>Reconnect delay sequence\<close>

lemma delay_large: "5 \<le> n \<Longrightarrow> (30000::int) \<le> 1000 * 2 ^ n"
proof -
  assume "5 \<le> n"
  then have "(2::int) ^ 5 \<le> 2 ^ n"
    by (intro power_increasing) simp_all
  then show ?thesis by simp
qed

text \<open>
  Claim C8. The reconnect delay is a function of the attempt count alone: 0 ms for
  attempt 0 and \<open>min (1000 * 2^n) 30000\<close> ms for every attempt \<open>n \<ge> 1\<close>; for attempts
  0, 1, 2, 3 this is 0, 2000, 4000, 8000 ms, and from attempt 5 on it is exactly 30000 ms.
\<close>

theorem retry_delay_policy:
  "nextRetryDelayInMilliseconds 0 = 0
   \<and> (\<forall>n\<ge>1. nextRetryDelayInMilliseconds n = min (1000 * 2 ^ n) 30000)
   \<and> map nextRetryDelayInMilliseconds [0, 1, 2, 3] = [0, 2000, 4000, 8000]
   \<and> (\<forall>n\<ge>5. nextRetryDelayInMilliseconds n = 30000)"
proof (intro conjI allI impI)
  show "nextRetryDelayInMilliseconds 0 = 0"
    by (simp add: nextRetryDelayInMilliseconds_def)
  show "nextRetryDelayInMilliseconds n = min (1000 * 2 ^ n) 30000" if "1 \<le> n" for n
    using that by (simp add: nextRetryDelayInMilliseconds_def)
  show "map nextRetryDelayInMilliseconds [0, 1, 2, 3] = [0, 2000, 4000, 8000]"
    by (simp add: nextRetryDelayInMilliseconds_def)
  show "nextRetryDelayInMilliseconds n = 30000" if "5 \<le> n" for n
    using that delay_large [of n] by (simp add: nextRetryDelayInMilliseconds_def)
qed

theorem retry_delay_policy_witness:
  "(1::nat) \<le> 4 \<and> nextRetryDelayInMilliseconds 4 = min (1000 * 2 ^ 4) 30000
   \<and> (5::nat) \<le> 7 \<and> nextRetryDelayInMilliseconds 7 = 30000"
  using retry_delay_policy by simp

section \<open>Alert registry: resend and acknowledgement\<close>

lemma onNewAlert_distinct:
  "distinct (map id_a prev) \<Longrightarrow> distinct (map id_a (onNewAlert prev alert))"
  by (auto simp: onNewAlert_def find_js_None split: option.splits)

lemma acknowledgeAlert_nth:
  "k < length registry \<Longrightarrow>
   acknowledgeAlert registry alertId ! k =
     (if id_a (registry ! k) = alertId then (registry ! k)\<lparr>acknowledged := True\<rparr>
      else registry ! k)"
  by (simp add: acknowledgeAlert_def)

lemma acknowledgeAlert_ids: "map id_a (acknowledgeAlert registry alertId) = map id_a registry"
  by (induction registry) (simp_all add: acknowledgeAlert_def)

lemma handle_alert_ids_distinct:
  "distinct (map id_a (alerts s)) \<Longrightarrow> distinct (map id_a (alerts (handle cap s e)))"
  by (cases e) (simp_all add: onNewAlert_distinct acknowledgeAlert_ids)

lemma run_alert_ids_distinct:
  "distinct (map id_a (alerts s)) \<Longrightarrow> distinct (map id_a (alerts (run cap s evs)))"
  unfolding run_def
  by (induction evs arbitrary: s) (simp_all add: handle_alert_ids_distinct)

text \<open>
  Claim C9. For every registry and every alert whose id is already present in it, the
  \<open>NewAlert\<close> updater returns the registry unchanged; in particular an entry that is
  acknowledged stays acknowledged.
\<close>

theorem resend_keeps_registry:
  assumes "id_a alert \<in> set (map id_a registry)"
  shows "onNewAlert registry alert = registry
    \<and> (\<forall>k<length registry. acknowledged (registry ! k) \<longrightarrow>
          acknowledged (onNewAlert registry alert ! k))"
proof -
  from assms have "\<exists>x\<in>set registry. id_a x = id_a alert" by auto
  then obtain x where "find_js (\<lambda>a. id_a a = id_a alert) registry = Some x"
    using find_js_Some_iff [of "\<lambda>a. id_a a = id_a alert" registry] by blast
  then have "onNewAlert registry alert = registry"
    by (simp add: onNewAlert_def)
  then show ?thesis by simp
qed

theorem resend_keeps_registry_witness:
  "id_a (alr ''a1'' ''overheat again'' False ''t9'')
      \<in> set (map id_a [alr ''a2'' ''vibration'' False ''t2'', alr ''a1'' ''overheat'' True ''t1''])
   \<and> onNewAlert [alr ''a2'' ''vibration'' False ''t2'', alr ''a1'' ''overheat'' True ''t1'']
        (alr ''a1'' ''overheat again'' False ''t9'')
      = [alr ''a2'' ''vibration'' False ''t2'', alr ''a1'' ''overheat'' True ''t1'']"
  using resend_keeps_registry [of "alr ''a1'' ''overheat again'' False ''t9''"
      "[alr ''a2'' ''vibration'' False ''t2'', alr ''a1'' ''overheat'' True ''t1'']"]
  by (simp add: alr_def)

text \<open>
  Claim C10. Acknowledging an id that is absent from the registry returns the registry
  unchanged. Otherwise the length and the order are kept, an entry with another id is
  unchanged, and an entry with the id is the old entry with \<open>acknowledged\<close> set; when
  the ids are unique (as they are in every registry built by the handlers, lemma
  \<open>run_alert_ids_distinct\<close>) the result is the registry with that one entry updated.
\<close>

theorem acknowledge_frame:
  "(alertId \<notin> set (map id_a registry) \<longrightarrow> acknowledgeAlert registry alertId = registry)
   \<and> length (acknowledgeAlert registry alertId) = length registry
   \<and> (\<forall>k<length registry.
        acknowledgeAlert registry alertId ! k =
          (if id_a (registry ! k) = alertId then (registry ! k)\<lparr>acknowledged := True\<rparr>
           else registry ! k))
   \<and> (\<forall>i<length registry. distinct (map id_a registry) \<and> id_a (registry ! i) = alertId \<longrightarrow>
        acknowledgeAlert registry alertId = registry[i := (registry ! i)\<lparr>acknowledged := True\<rparr>])"
proof (intro conjI allI impI)
  show "acknowledgeAlert registry alertId = registry" if "alertId \<notin> set (map id_a registry)"
  proof -
    from that have "\<forall>a\<in>set registry. id_a a \<noteq> alertId" by auto
    then show ?thesis
      unfolding acknowledgeAlert_def by (induction registry) simp_all
  qed
  show "length (acknowledgeAlert registry alertId) = length registry"
    by (simp add: acknowledgeAlert_def)
  show "acknowledgeAlert registry alertId ! k =
          (if id_a (registry ! k) = alertId then (registry ! k)\<lparr>acknowledged := True\<rparr>
           else registry ! k)" if "k < length registry" for k
    using that by (rule acknowledgeAlert_nth)
  show "acknowledgeAlert registry alertId = registry[i := (registry ! i)\<lparr>acknowledged := True\<rparr>]"
    if "i < length registry" and h: "distinct (map id_a registry) \<and> id_a (registry ! i) = alertId" for i
  proof (rule nth_equalityI)
    show "length (acknowledgeAlert registry alertId)
        = length (registry[i := (registry ! i)\<lparr>acknowledged := True\<rparr>])"
      by (simp add: acknowledgeAlert_def)
    fix k assume "k < length (acknowledgeAlert registry alertId)"
    then have k: "k < length registry" by (simp add: acknowledgeAlert_def)
    show "acknowledgeAlert registry alertId ! k
        = registry[i := (registry ! i)\<lparr>acknowledged := True\<rparr>] ! k"
    proof (cases "k = i")
      case True
      with k h show ?thesis by (simp add: acknowledgeAlert_nth)
    next
      case False
      from h have "distinct (map id_a registry)" ..
      with k \<open>i < length registry\<close> False have "id_a (registry ! k) \<noteq> id_a (registry ! i)"
        by (simp add: distinct_conv_nth)
      with k h False show ?thesis by (simp add: acknowledgeAlert_nth)
    qed
  qed
qed

theorem acknowledge_frame_witness:
  "''zz'' \<notin> set (map id_a [alr ''a2'' ''vibration'' False ''t2'', alr ''a1'' ''overheat'' False ''t1''])
   \<and> acknowledgeAlert [alr ''a2'' ''vibration'' False ''t2'', alr ''a1'' ''overheat'' False ''t1''] ''zz''
      = [alr ''a2'' ''vibration'' False ''t2'', alr ''a1'' ''overheat'' False ''t1'']
   \<and> (1::nat) < length [alr ''a2'' ''vibration'' False ''t2'', alr ''a1'' ''overheat'' False ''t1'']
   \<and> distinct (map id_a [alr ''a2'' ''vibration'' False ''t2'', alr ''a1'' ''overheat'' False ''t1''])
   \<and> id_a ([alr ''a2'' ''vibration'' False ''t2'', alr ''a1'' ''overheat'' False ''t1''] ! 1) = ''a1''
   \<and> acknowledgeAlert [alr ''a2'' ''vibration'' False ''t2'', alr ''a1'' ''overheat'' False ''t1''] ''a1''
      = [alr ''a2'' ''vibration'' False ''t2'', alr ''a1'' ''overheat'' True ''t1'']"
proof -
  let ?reg = "[alr ''a2'' ''vibration'' False ''t2'', alr ''a1'' ''overheat'' False ''t1'']"
  have absent: "''zz'' \<notin> set (map id_a ?reg)"
    by (simp add: alr_def)
  have present: "(1::nat) < length ?reg" "distinct (map id_a ?reg)" "id_a (?reg ! 1) = ''a1''"
    by (simp_all add: alr_def)
  from acknowledge_frame [of "''zz''" ?reg] absent
  have noop: "acknowledgeAlert ?reg ''zz'' = ?reg"
    by blast
  from acknowledge_frame [of "''a1''" ?reg] present
  have "acknowledgeAlert ?reg ''a1'' = ?reg[1 := (?reg ! 1)\<lparr>acknowledged := True\<rparr>]"
    by blast
  then have "acknowledgeAlert ?reg ''a1''
      = [alr ''a2'' ''vibration'' False ''t2'', alr ''a1'' ''overheat'' True ''t1'']"
    by (simp add: alr_def)
  with absent present noop show ?thesis by blast
qed

end
